theory Spec2Isabelle
  imports Main "HOL-Library.Word" "HOL-Library.Stream"
begin

section \<open>Sockets, time and run-time faults\<close>

text \<open>
  A \<open>*net.UDPConn\<close> is a nullable pointer: \<open>None\<close> is \<open>nil\<close>, \<open>Some c\<close> is the socket
  with identity \<open>c\<close>. Calling \<open>Close\<close> through a nil \<open>*net.UDPConn\<close> is a nil pointer
  dereference (the method is promoted from the embedded struct, whose address is taken
  first), a run-time panic. The sockets that have been closed are kept as the list of
  \<open>Close\<close> calls, in call order.
\<close>

type_synonym conn = nat

datatype fault = NilDereference

definition close_conn :: "conn option \<Rightarrow> conn list \<Rightarrow> fault + conn list" where
  "close_conn c cl = (case c of None \<Rightarrow> Inl NilDereference | Some s \<Rightarrow> Inr (cl @ [s]))"

text \<open>
  A \<open>time.Time\<close> is a number of nanoseconds counted from the zero time, a
  \<open>time.Duration\<close> is a signed 64-bit number of nanoseconds. \<open>time.Since\<close> saturates
  at the largest and smallest duration. One pool operation runs under the pool's lock
  and reads the clock as one instant \<open>now\<close>.
\<close>

type_synonym time = int
type_synonym duration = int

definition maxDuration :: duration where
  "maxDuration = 2 ^ 63 - 1"

definition minDuration :: duration where
  "minDuration = - (2 ^ 63)"

definition since :: "time \<Rightarrow> time \<Rightarrow> duration" where
  "since now t =
     (let d = now - t
      in if d > maxDuration then maxDuration
         else if d < minDuration then minDuration
         else d)"

definition second :: duration where
  "second = 1000000000"

section \<open>The UDP connection pool\<close>

record udpConnPoolElem =
  UDPConn :: "conn option"
  lastUsed :: time

record udpConnPool =
  maxSize :: int
  pool :: "udpConnPoolElem list"
  ttl :: duration
  lastClean :: time
  cleannerInterval :: duration

text \<open>
  \<open>newUDPConnPool\<close> leaves \<open>lastClean\<close> at the zero time, which is the instant 0.
\<close>

definition newUDPConnPool :: "int \<Rightarrow> duration \<Rightarrow> duration \<Rightarrow> udpConnPool" where
  "newUDPConnPool sz tt gcInterval =
     \<lparr>maxSize = sz, pool = [], ttl = tt, lastClean = 0, cleannerInterval = gcInterval\<rparr>"

text \<open>
  The guard \<open>p == nil && cond\<close> of the pool methods. Go evaluates the right operand
  only when the left one is true, and the right operand reads a field through \<open>p\<close>.
\<close>

definition nil_and_guard :: "'a option \<Rightarrow> ('a \<Rightarrow> bool) \<Rightarrow> fault + bool" where
  "nil_and_guard p cond =
     (if p = None
      then (case p of None \<Rightarrow> Inl NilDereference | Some q \<Rightarrow> Inr (cond q))
      else Inr False)"

text \<open>
  Both sweeps filter in place: \<open>res := p.pool[:0]\<close> shares the array of \<open>p.pool\<close>, so
  \<open>append(res, p.pool[i])\<close> writes slot \<open>len(res)\<close> of that same array. The loops are
  modelled on the array \<open>a\<close>, with \<open>n\<close> the length \<open>range\<close> fixed at loop entry, \<open>i\<close>
  the loop index and \<open>k\<close> the length of \<open>res\<close>.
\<close>

definition set_nil :: "nat \<Rightarrow> udpConnPoolElem list \<Rightarrow> udpConnPoolElem list" where
  "set_nil i a = a[i := (a ! i)\<lparr>UDPConn := None\<rparr>]"

function scheduled_loop ::
  "time \<Rightarrow> duration \<Rightarrow> nat \<Rightarrow> nat \<Rightarrow> nat \<Rightarrow> udpConnPoolElem list \<Rightarrow> conn list
     \<Rightarrow> fault + (udpConnPoolElem list \<times> conn list)" where
  "scheduled_loop now tt n i k a cl =
     (if i < n then
        (if since now (lastUsed (a ! i)) < tt
         then scheduled_loop now tt n (i + 1) (k + 1) (a[k := a ! i]) cl
         else (case close_conn (UDPConn (a ! i)) cl of
                 Inl f \<Rightarrow> Inl f
               | Inr cl1 \<Rightarrow> scheduled_loop now tt n (i + 1) k (set_nil i a) cl1))
      else Inr (take k a, cl))"
  by pat_completeness auto
termination
  by (relation "measure (\<lambda>(now, tt, n, i, k, a, cl). n - i)") auto

declare scheduled_loop.simps [simp del]

function capacity_loop ::
  "time \<Rightarrow> duration \<Rightarrow> nat \<Rightarrow> nat \<Rightarrow> nat \<Rightarrow> nat \<Rightarrow> udpConnPoolElem list \<Rightarrow> conn list
     \<Rightarrow> fault + (udpConnPoolElem list \<times> conn list)" where
  "capacity_loop now tt mid n i k a cl =
     (if i < n then
        (case (if i < mid
               then (case close_conn (UDPConn (a ! i)) cl of
                       Inl f \<Rightarrow> Inl f
                     | Inr cl1 \<Rightarrow> Inr (set_nil i a, cl1))
               else Inr (a, cl)) of
           Inl f \<Rightarrow> Inl f
         | Inr (a1, cl1) \<Rightarrow>
             (if since now (lastUsed (a1 ! i)) < tt
              then capacity_loop now tt mid n (i + 1) (k + 1) (a1[k := a1 ! i]) cl1
              else (case close_conn (UDPConn (a1 ! i)) cl1 of
                      Inl f \<Rightarrow> Inl f
                    | Inr cl2 \<Rightarrow> capacity_loop now tt mid n (i + 1) k (set_nil i a1) cl2)))
      else Inr (take k a, cl))"
  by pat_completeness auto
termination
  by (relation "measure (\<lambda>(now, tt, mid, n, i, k, a, cl). n - i)") auto

declare capacity_loop.simps [simp del]

text \<open>
  The same sweep read off as a pass over a list: \<open>sweep_list now tt mid i es\<close> treats
  the entries \<open>es\<close>, the first of which has index \<open>i\<close>, as one iteration of the
  capacity loop treats each (the scheduled loop is the case \<open>mid = 0\<close>). It is the
  reference the in-place loops are compared with below.
\<close>

fun sweep_list ::
  "time \<Rightarrow> duration \<Rightarrow> nat \<Rightarrow> nat \<Rightarrow> udpConnPoolElem list \<Rightarrow> conn list
     \<Rightarrow> fault + (udpConnPoolElem list \<times> conn list)" where
  "sweep_list now tt mid i [] cl = Inr ([], cl)"
| "sweep_list now tt mid i (e # es) cl =
     (case (if i < mid
            then (case close_conn (UDPConn e) cl of
                    Inl f \<Rightarrow> Inl f
                  | Inr cl1 \<Rightarrow> Inr (e\<lparr>UDPConn := None\<rparr>, cl1))
            else Inr (e, cl)) of
        Inl f \<Rightarrow> Inl f
      | Inr (e1, cl1) \<Rightarrow>
          (if since now (lastUsed e1) < tt
           then (case sweep_list now tt mid (i + 1) es cl1 of
                   Inl f \<Rightarrow> Inl f
                 | Inr (res, cl2) \<Rightarrow> Inr (e1 # res, cl2))
           else (case close_conn (UDPConn e1) cl1 of
                   Inl f \<Rightarrow> Inl f
                 | Inr cl2 \<Rightarrow> sweep_list now tt mid (i + 1) es cl2)))"

definition runCleanner ::
  "udpConnPool option \<Rightarrow> time \<Rightarrow> conn list \<Rightarrow> fault + (udpConnPool \<times> conn list)" where
  "runCleanner po now cl =
     (case nil_and_guard po (\<lambda>p. length (pool p) = 0) of
        Inl f \<Rightarrow> Inl f
      | Inr g \<Rightarrow>
          (case po of
             None \<Rightarrow> Inl NilDereference
           | Some p \<Rightarrow>
               (if g then Inr (p, cl)
                else
                  (case (if since now (lastClean p) > cleannerInterval p
                         then (case scheduled_loop now (ttl p) (length (pool p)) 0 0 (pool p) cl of
                                 Inl f \<Rightarrow> Inl f
                               | Inr (res, cl1) \<Rightarrow> Inr (p\<lparr>lastClean := now, pool := res\<rparr>, cl1))
                         else Inr (p, cl)) of
                     Inl f \<Rightarrow> Inl f
                   | Inr (p1, cl1) \<Rightarrow>
                       (if int (length (pool p1)) \<ge> maxSize p1
                        then (case capacity_loop now (ttl p1) (length (pool p1) div 2)
                                     (length (pool p1)) 0 0 (pool p1) cl1 of
                                Inl f \<Rightarrow> Inl f
                              | Inr (res, cl2) \<Rightarrow> Inr (p1\<lparr>pool := res\<rparr>, cl2))
                        else Inr (p1, cl1))))))"

definition put ::
  "udpConnPool option \<Rightarrow> conn option \<Rightarrow> time \<Rightarrow> conn list
     \<Rightarrow> fault + (udpConnPool option \<times> conn list)" where
  "put po c now cl =
     (case nil_and_guard po (\<lambda>p. maxSize p \<le> 0) of
        Inl f \<Rightarrow> Inl f
      | Inr g \<Rightarrow>
          (if g then Inr (po, cl)
           else
             (case runCleanner po now cl of
                Inl f \<Rightarrow> Inl f
              | Inr (p1, cl1) \<Rightarrow>
                  (if int (length (pool p1)) \<ge> maxSize p1
                   then (case close_conn c cl1 of
                           Inl f \<Rightarrow> Inl f
                         | Inr cl2 \<Rightarrow> Inr (Some p1, cl2))
                   else Inr (Some (p1\<lparr>pool := pool p1 @ [\<lparr>UDPConn = c, lastUsed = now\<rparr>]\<rparr>),
                             cl1)))))"

definition get ::
  "udpConnPool option \<Rightarrow> time \<Rightarrow> conn list
     \<Rightarrow> fault + (conn option \<times> udpConnPool option \<times> conn list)" where
  "get po now cl =
     (case nil_and_guard po (\<lambda>p. maxSize p \<le> 0) of
        Inl f \<Rightarrow> Inl f
      | Inr g \<Rightarrow>
          (if g then Inr (None, po, cl)
           else
             (case runCleanner po now cl of
                Inl f \<Rightarrow> Inl f
              | Inr (p1, cl1) \<Rightarrow>
                  (if length (pool p1) > 0
                   then
                     (let e = pool p1 ! (length (pool p1) - 1);
                          p2 = p1\<lparr>pool := take (length (pool p1) - 1) (pool p1)\<rparr>
                      in if since now (lastUsed e) > ttl p2
                         then (case close_conn (UDPConn e) cl1 of
                                 Inl f \<Rightarrow> Inl f
                               | Inr cl2 \<Rightarrow> Inr (None, Some p2, cl2))
                         else Inr (UDPConn e, Some p2, cl1))
                   else Inr (None, Some p1, cl1)))))"

text \<open>
  A sequence of pool calls, each with the instant at which it runs. \<open>Put\<close> hands over a
  socket, as the exchanger does; the results of the \<open>Get\<close> calls are collected in order.
\<close>

datatype pool_op = Get | Put conn

fun run_ops ::
  "(pool_op \<times> time) list \<Rightarrow> udpConnPool option \<Rightarrow> conn list
     \<Rightarrow> fault + (conn option list \<times> udpConnPool option \<times> conn list)" where
  "run_ops [] po cl = Inr ([], po, cl)"
| "run_ops ((Get, t) # ops) po cl =
     (case get po t cl of
        Inl f \<Rightarrow> Inl f
      | Inr (c, po1, cl1) \<Rightarrow>
          (case run_ops ops po1 cl1 of
             Inl f \<Rightarrow> Inl f
           | Inr (rs, po2, cl2) \<Rightarrow> Inr (c # rs, po2, cl2)))"
| "run_ops ((Put c, t) # ops) po cl =
     (case put po (Some c) t cl of
        Inl f \<Rightarrow> Inl f
      | Inr (po1, cl1) \<Rightarrow> run_ops ops po1 cl1)"

fun put_conns :: "(pool_op \<times> time) list \<Rightarrow> conn list" where
  "put_conns [] = []"
| "put_conns ((Get, t) # ops) = put_conns ops"
| "put_conns ((Put c, t) # ops) = c # put_conns ops"

fun count_gets :: "(pool_op \<times> time) list \<Rightarrow> nat" where
  "count_gets [] = 0"
| "count_gets ((Get, t) # ops) = Suc (count_gets ops)"
| "count_gets ((Put c, t) # ops) = count_gets ops"

section \<open>Messages and errors\<close>

type_synonym msg = "8 word list"

text \<open>
  Modelled from the spec: \<open>utils.GetMsgID\<close> is not part of the source file. The spec
  gives bytes 0 and 1 of a raw message, in network order, as its transaction ID. What the
  helper does on a message of fewer than two bytes is not given, and is left open here.
\<close>

fun GetMsgID :: "msg \<Rightarrow> 16 word" where
  "GetMsgID (b0 # b1 # rest) = word_cat b0 b1"

text \<open>
  Go error values. \<open>NetError t\<close> is an error that implements \<open>net.Error\<close> and whose
  \<open>Timeout()\<close> is \<open>t\<close>; \<open>ErrShortRead\<close> and \<open>ErrId\<close> are the two values of package
  \<open>dns\<close>; \<open>PlainError\<close> is any other error, with its text.
\<close>

datatype error = NetError bool | PlainError string | ErrShortRead | ErrId

definition is_net_timeout :: "error \<Rightarrow> bool" where
  "is_net_timeout err = (case err of NetError t \<Rightarrow> t | _ \<Rightarrow> False)"

text \<open>
  What lies outside one exchange: the sockets closed so far, and how many receive buffers
  the buffer pool has handed out and taken back.
\<close>

record world =
  closed :: "conn list"
  acquired :: nat
  released :: nat

section \<open>The TCP exchanger\<close>

record upstreamTCP =
  addrTCP :: string

text \<open>
  The network's part in one TCP exchange: the result of the dial, of the write and of
  the framed read. \<open>readMsgFromTCP\<close> is not part of the source file; the reply it returns
  is a buffer of the buffer pool, as the release on the mismatch path shows.
\<close>

record tcp_env =
  dialTCP :: "error + conn"
  writeTCP :: "error option"
  readTCP :: "error + msg"

definition exchangeTCP ::
  "upstreamTCP \<Rightarrow> msg \<Rightarrow> tcp_env \<Rightarrow> world \<Rightarrow> (msg option \<times> error option) \<times> world" where
  "exchangeTCP u qRaw env w =
     (case dialTCP env of
        Inl err \<Rightarrow> ((None, Some err), w)
      | Inr c \<Rightarrow>
          (case writeTCP env of
             Some err \<Rightarrow> ((None, Some err), w\<lparr>closed := closed w @ [c]\<rparr>)
           | None \<Rightarrow>
               (case readTCP env of
                  Inl err \<Rightarrow> ((None, Some err), w\<lparr>closed := closed w @ [c]\<rparr>)
                | Inr rRaw \<Rightarrow>
                    (if GetMsgID rRaw \<noteq> GetMsgID qRaw
                     then ((None, Some ErrId),
                           w\<lparr>closed := closed w @ [c], acquired := acquired w + 1,
                             released := released w + 1\<rparr>)
                     else ((Some rRaw, None),
                           w\<lparr>closed := closed w @ [c], acquired := acquired w + 1\<rparr>)))))"

definition ExchangeTCP ::
  "upstreamTCP \<Rightarrow> msg \<Rightarrow> time \<Rightarrow> time \<Rightarrow> tcp_env \<Rightarrow> world
     \<Rightarrow> (msg option \<times> duration \<times> error option) \<times> world" where
  "ExchangeTCP u qRaw t t_end env w =
     (case exchangeTCP u qRaw env w of
        ((r, err), w1) \<Rightarrow> ((r, since t_end t, err), w1))"

section \<open>The UDP exchanger\<close>

record udpAddr =
  IP :: "8 word list"
  Port :: int
  Zone :: string

record upstreamUDP =
  addr :: udpAddr
  maxUDPSize :: int
  cp :: "udpConnPool option"

text \<open>
  One call of \<open>c.Read(buf)\<close> either fails or fills the first \<open>n\<close> bytes of the buffer:
  \<open>ReadOk m\<close> is a read of \<open>n = length m\<close> bytes with \<open>buf[:n] = m\<close>. \<open>ReadErr err b\<close>
  is a failed read, with \<open>b\<close> telling whether \<open>ctx.Err()\<close> is non-nil when the error is
  examined. The reads of one exchange are a stream: the loop may read without end.
\<close>

datatype read_result = ReadOk msg | ReadErr error bool

text \<open>
  A stale reply on a reused socket: a read of at least 12 bytes whose transaction ID is
  not the query's. This is the reply the loop drops before it reads again.
\<close>

definition is_stale :: "msg \<Rightarrow> read_result \<Rightarrow> bool" where
  "is_stale qRaw r =
     (case r of
        ReadOk m \<Rightarrow> 12 \<le> length m \<and> GetMsgID m \<noteq> GetMsgID qRaw
      | ReadErr err b \<Rightarrow> False)"

record udp_env =
  t_get :: time
  dialUDP :: "error + conn"
  writeUDP :: "error option"
  reads :: "read_result stream"
  t_put :: time

text \<open>Lines 132 to 140: a socket of the pool, or else a newly dialled one.\<close>

definition obtain_conn ::
  "upstreamUDP \<Rightarrow> udp_env \<Rightarrow> world
     \<Rightarrow> fault + ((error + conn \<times> bool) \<times> udpConnPool option \<times> world)" where
  "obtain_conn u env w =
     (case get (cp u) (t_get env) (closed w) of
        Inl f \<Rightarrow> Inl f
      | Inr (c0, po1, cl1) \<Rightarrow>
          (case c0 of
             None \<Rightarrow>
               (case dialUDP env of
                  Inl err \<Rightarrow> Inr (Inl err, po1, w\<lparr>closed := cl1\<rparr>)
                | Inr c \<Rightarrow> Inr (Inr (c, True), po1, w\<lparr>closed := cl1\<rparr>))
           | Some c \<Rightarrow> Inr (Inr (c, False), po1, w\<lparr>closed := cl1\<rparr>)))"

text \<open>
  The code from the label \<open>read\<close> on. \<open>None\<close> is a loop that reads stale replies
  without end.
\<close>

partial_function (option) read_loop ::
  "udpConnPool option \<Rightarrow> conn \<Rightarrow> bool \<Rightarrow> msg \<Rightarrow> time \<Rightarrow> read_result stream \<Rightarrow> world
     \<Rightarrow> (fault + ((msg option \<times> error option) \<times> udpConnPool option \<times> world)) option" where
  "read_loop po c isNewConn qRaw tput rs w =
     (case shd rs of
        ReadErr err ctxErr \<Rightarrow>
          (if is_net_timeout err \<and> ctxErr
           then Some (case put po (Some c) tput (closed w) of
                        Inl f \<Rightarrow> Inl f
                      | Inr (po1, cl1) \<Rightarrow>
                          Inr ((None, Some err), po1,
                               w\<lparr>closed := cl1, released := released w + 1\<rparr>))
           else Some (Inr ((None, Some err), po,
                           w\<lparr>closed := closed w @ [c], released := released w + 1\<rparr>)))
      | ReadOk m \<Rightarrow>
          (if length m < 12
           then Some (Inr ((None, Some ErrShortRead), po,
                           w\<lparr>closed := closed w @ [c], released := released w + 1\<rparr>))
           else if GetMsgID m \<noteq> GetMsgID qRaw \<and> \<not> isNewConn
           then read_loop po c isNewConn qRaw tput (stl rs) w
           else Some (case put po (Some c) tput (closed w) of
                        Inl f \<Rightarrow> Inl f
                      | Inr (po1, cl1) \<Rightarrow> Inr ((Some m, None), po1, w\<lparr>closed := cl1\<rparr>))))"

definition exchangeUDP ::
  "upstreamUDP \<Rightarrow> msg \<Rightarrow> udp_env \<Rightarrow> world
     \<Rightarrow> (fault + ((msg option \<times> error option) \<times> udpConnPool option \<times> world)) option" where
  "exchangeUDP u qRaw env w =
     (case obtain_conn u env w of
        Inl f \<Rightarrow> Some (Inl f)
      | Inr (Inl err, po1, w1) \<Rightarrow> Some (Inr ((None, Some err), po1, w1))
      | Inr (Inr (c, isNewConn), po1, w1) \<Rightarrow>
          (case writeUDP env of
             Some err \<Rightarrow> Some (Inr ((None, Some err), po1, w1\<lparr>closed := closed w1 @ [c]\<rparr>))
           | None \<Rightarrow>
               read_loop po1 c isNewConn qRaw (t_put env) (reads env)
                 (w1\<lparr>acquired := acquired w1 + 1\<rparr>)))"

definition ExchangeUDP ::
  "upstreamUDP \<Rightarrow> msg \<Rightarrow> time \<Rightarrow> time \<Rightarrow> udp_env \<Rightarrow> world
     \<Rightarrow> (fault + ((msg option \<times> duration \<times> error option) \<times> udpConnPool option \<times> world)) option"
  where
  "ExchangeUDP u qRaw t t_end env w =
     (case exchangeUDP u qRaw env w of
        None \<Rightarrow> None
      | Some (Inl f) \<Rightarrow> Some (Inl f)
      | Some (Inr ((r, err), po1, w1)) \<Rightarrow> Some (Inr ((r, since t_end t, err), po1, w1)))"

section \<open>The upstream factory\<close>

text \<open>
  The DoH client belongs to another package; an upstream of that kind is kept as the
  arguments \<open>newUpstream\<close> builds it from. \<open>net.ResolveUDPAddr\<close> and the module constant
  \<open>queryTimeout\<close> are not part of the source file and are parameters of the model.
\<close>

typedecl certPool

record tlsConfig =
  RootCAs :: "certPool option"
  ClientSessionCache :: nat

record dohClient =
  dohURL :: string
  dohAddr :: string
  dohTLS :: tlsConfig
  dohMaxSize :: int
  dohTimeout :: duration

datatype upstream = TCP upstreamTCP | UDP upstreamUDP | DoH dohClient

definition MaxMsgSize :: int where
  "MaxMsgSize = 65535"

definition newUpstream ::
  "(string \<Rightarrow> error + udpAddr) \<Rightarrow> duration \<Rightarrow> string \<Rightarrow> string \<Rightarrow> string \<Rightarrow> certPool option
     \<Rightarrow> error + upstream" where
  "newUpstream resolveUDPAddr queryTimeout ad prot url rootCAs =
     (if prot = ''tcp'' then Inr (TCP \<lparr>addrTCP = ad\<rparr>)
      else if prot = ''udp'' \<or> prot = [] then
        (case resolveUDPAddr ad of
           Inl err \<Rightarrow> Inl err
         | Inr udpAd \<Rightarrow>
             Inr (UDP \<lparr>addr = udpAd, maxUDPSize = 1480,
                       cp = Some (newUDPConnPool 0xffff (second * 10) (second * 10))\<rparr>))
      else if prot = ''doh'' then
        (if length url = 0
         then Inl (PlainError (''protocol ['' @ prot @ ''] needs URL''))
         else Inr (DoH \<lparr>dohURL = url, dohAddr = ad,
                        dohTLS = \<lparr>RootCAs = rootCAs, ClientSessionCache = 64\<rparr>,
                        dohMaxSize = MaxMsgSize, dohTimeout = queryTimeout\<rparr>))
      else Inl (PlainError (''unsupport protocol: '' @ prot)))"

section \<open>Sample inputs\<close>

text \<open>
  Concrete inputs on which the theorems below are run: an instant of the year 2019, a
  query with transaction ID 1, a reply to it, a reply with transaction ID 2, an upstream
  whose pool holds socket 7, released one second before, and an upstream whose pool is
  new and empty.
\<close>

definition sample_now :: time where
  "sample_now = 63700000000000000000"

definition sample_query :: msg where
  "sample_query = [0, 1, 1, 0, 0, 1, 0, 0, 0, 0, 0, 0]"

definition sample_reply :: msg where
  "sample_reply = [0, 1, 129, 128, 0, 1, 0, 0, 0, 0, 0, 0]"

definition sample_other_reply :: msg where
  "sample_other_reply = [0, 2, 129, 128, 0, 1, 0, 0, 0, 0, 0, 0]"

definition sample_addr :: udpAddr where
  "sample_addr = \<lparr>IP = [127, 0, 0, 1], Port = 53, Zone = []\<rparr>"


definition sample_fresh_upstream :: upstreamUDP where
  "sample_fresh_upstream =
     \<lparr>addr = sample_addr, maxUDPSize = 1480,
      cp = Some (newUDPConnPool 0xffff (second * 10) (second * 10))\<rparr>"

definition sample_world :: world where
  "sample_world = \<lparr>closed = [], acquired = 0, released = 0\<rparr>"

definition sample_env :: "read_result stream \<Rightarrow> udp_env" where
  "sample_env rs =
     \<lparr>t_get = sample_now + second, dialUDP = Inr 8, writeUDP = None, reads = rs,
      t_put = sample_now + 2 * second\<rparr>"

text \<open>
  Two more upstreams: one whose pool of capacity 4 holds the four sockets 1 to 4, all put
  at the sample instant, and one whose pool has capacity 0. And an environment in which
  the socket goes back to the pool 12 seconds after the sample instant.
\<close>

definition sample_full_upstream :: upstreamUDP where
  "sample_full_upstream =
     \<lparr>addr = sample_addr, maxUDPSize = 1480,
      cp = Some \<lparr>maxSize = 4,
                 pool = [\<lparr>UDPConn = Some 1, lastUsed = sample_now\<rparr>,
                         \<lparr>UDPConn = Some 2, lastUsed = sample_now\<rparr>,
                         \<lparr>UDPConn = Some 3, lastUsed = sample_now\<rparr>,
                         \<lparr>UDPConn = Some 4, lastUsed = sample_now\<rparr>],
                 ttl = second * 10, lastClean = sample_now,
                 cleannerInterval = second * 10\<rparr>\<rparr>"


definition sample_late_env :: "read_result stream \<Rightarrow> udp_env" where
  "sample_late_env rs =
     \<lparr>t_get = sample_now + second, dialUDP = Inr 8, writeUDP = None, reads = rs,
      t_put = sample_now + 12 * second\<rparr>"

section \<open>Properties of the pool\<close>

subsection \<open>What the sweeps keep\<close>

lemma scheduled_loop_length:
  "scheduled_loop now tt n i k a cl = Inr (res, cl') \<Longrightarrow> k \<le> i \<Longrightarrow> length a = n
     \<Longrightarrow> length res \<le> n"
proof (induction now tt n i k a cl rule: scheduled_loop.induct)
  case (1 now tt n i k a cl)
  show ?case
  proof (cases "i < n")
    case False
    with "1.prems" show ?thesis
      by (auto simp add: scheduled_loop.simps [of now tt n i k a cl])
  next
    case True
    show ?thesis
      using "1.prems" True "1.IH"
      apply (subst (asm) scheduled_loop.simps)
      apply (auto split: if_splits sum.splits simp: set_nil_def close_conn_def)
      done
  qed
qed

lemma capacity_loop_length:
  "capacity_loop now tt mid n i k a cl = Inr (res, cl') \<Longrightarrow> k \<le> i \<Longrightarrow> length a = n
     \<Longrightarrow> length res \<le> n"
proof (induction now tt mid n i k a cl rule: capacity_loop.induct)
  case (1 now tt mid n i k a cl)
  show ?case
  proof (cases "i < n")
    case False
    with "1.prems" show ?thesis
      by (auto simp add: capacity_loop.simps [of now tt mid n i k a cl])
  next
    case True
    show ?thesis
      using "1.prems" True "1.IH"
      apply (subst (asm) capacity_loop.simps)
      apply (auto split: if_splits sum.splits option.splits simp: set_nil_def close_conn_def)
      done
  qed
qed

lemma runCleanner_keeps:
  assumes "runCleanner (Some p) now cl = Inr (p1, cl1)"
  shows "length (pool p1) \<le> length (pool p) \<and> maxSize p1 = maxSize p \<and> ttl p1 = ttl p
         \<and> cleannerInterval p1 = cleannerInterval p"
  using assms
  by (auto simp: runCleanner_def nil_and_guard_def split: if_splits sum.splits prod.splits
      dest!: scheduled_loop_length capacity_loop_length)

lemma close_conn_Inr:
  "close_conn c cl = Inr cl1 \<Longrightarrow> \<exists>s. c = Some s \<and> cl1 = cl @ [s]"
  by (auto simp: close_conn_def split: option.splits)

lemma scheduled_loop_closed:
  "scheduled_loop now tt n i k a cl = Inr (res, cl') \<Longrightarrow> \<exists>x. cl' = cl @ x"
proof (induction now tt n i k a cl rule: scheduled_loop.induct)
  case (1 now tt n i k a cl)
  show ?case
  proof (cases "i < n")
    case False
    with "1.prems" show ?thesis
      by (auto simp add: scheduled_loop.simps [of now tt n i k a cl])
  next
    case True
    show ?thesis
    proof (cases "since now (lastUsed (a ! i)) < tt")
      case fresh: True
      with "1.prems" True
      have "scheduled_loop now tt n (i + 1) (k + 1) (a[k := a ! i]) cl = Inr (res, cl')"
        by (simp add: scheduled_loop.simps [of now tt n i k a cl])
      from "1.IH"(1) [OF True fresh this] show ?thesis .
    next
      case expired: False
      with "1.prems" True obtain cl1 where
        c: "close_conn (UDPConn (a ! i)) cl = Inr cl1" and
        r: "scheduled_loop now tt n (i + 1) k (set_nil i a) cl1 = Inr (res, cl')"
        by (auto simp add: scheduled_loop.simps [of now tt n i k a cl] split: sum.splits)
      from "1.IH"(2) [OF True expired c r] obtain x where "cl' = cl1 @ x" ..
      with close_conn_Inr [OF c] show ?thesis by auto
    qed
  qed
qed

lemma capacity_loop_closed:
  "capacity_loop now tt mid n i k a cl = Inr (res, cl') \<Longrightarrow> \<exists>x. cl' = cl @ x"
proof (induction now tt mid n i k a cl rule: capacity_loop.induct)
  case (1 now tt mid n i k a cl)
  show ?case
  proof (cases "i < n")
    case False
    with "1.prems" show ?thesis
      by (auto simp add: capacity_loop.simps [of now tt mid n i k a cl])
  next
    case True
    let ?forced = "if i < mid
               then (case close_conn (UDPConn (a ! i)) cl of
                       Inl f \<Rightarrow> Inl f
                     | Inr cl1 \<Rightarrow> Inr (set_nil i a, cl1))
               else Inr (a, cl)"
    from "1.prems" True obtain a1 cl1 where f: "?forced = Inr (a1, cl1)"
      by (auto simp add: capacity_loop.simps [of now tt mid n i k a cl] split: sum.splits)
    have e1: "\<exists>x. cl1 = cl @ x"
      using f by (auto split: if_splits sum.splits dest!: close_conn_Inr)
    show ?thesis
    proof (cases "since now (lastUsed (a1 ! i)) < tt")
      case fresh: True
      with "1.prems" True f
      have r: "capacity_loop now tt mid n (i + 1) (k + 1) (a1[k := a1 ! i]) cl1 = Inr (res, cl')"
        by (simp add: capacity_loop.simps [of now tt mid n i k a cl])
      from "1.IH"(1) [OF True f refl fresh r] obtain x where "cl' = cl1 @ x" ..
      with e1 show ?thesis by auto
    next
      case expired: False
      with "1.prems" True f obtain cl2 where
        c: "close_conn (UDPConn (a1 ! i)) cl1 = Inr cl2" and
        r: "capacity_loop now tt mid n (i + 1) k (set_nil i a1) cl2 = Inr (res, cl')"
        by (auto simp add: capacity_loop.simps [of now tt mid n i k a cl] split: sum.splits)
      from "1.IH"(2) [OF True f refl expired c r] obtain x where "cl' = cl2 @ x" ..
      with e1 close_conn_Inr [OF c] show ?thesis by auto
    qed
  qed
qed

lemma runCleanner_closed:
  assumes "runCleanner po now cl = Inr (p1, cl1)"
  shows "\<exists>x. cl1 = cl @ x"
proof (cases po)
  case None
  with assms show ?thesis by (simp add: runCleanner_def nil_and_guard_def)
next
  case (Some p)
  let ?sched = "if since now (lastClean p) > cleannerInterval p
                then (case scheduled_loop now (ttl p) (length (pool p)) 0 0 (pool p) cl of
                        Inl f \<Rightarrow> Inl f
                      | Inr (res, cl1) \<Rightarrow> Inr (p\<lparr>lastClean := now, pool := res\<rparr>, cl1))
                else Inr (p, cl)"
  from assms Some obtain pa cla where s: "?sched = Inr (pa, cla)"
    by (auto simp: runCleanner_def nil_and_guard_def split: sum.splits)
  have e1: "\<exists>x. cla = cl @ x"
    using s by (auto split: if_splits sum.splits dest!: scheduled_loop_closed)
  have "\<exists>x. cl1 = cla @ x"
    using assms Some s
    by (auto simp: runCleanner_def nil_and_guard_def split: if_splits sum.splits
        dest!: capacity_loop_closed)
  with e1 show ?thesis by auto
qed

lemma put_closes_or_pools:
  assumes "put po (Some c) now cl = Inr (po2, cl2)"
  shows "\<exists>x. cl2 = cl @ x \<and>
           (c \<in> set x \<or>
            (\<exists>p2. po2 = Some p2 \<and> pool p2 \<noteq> []
                  \<and> last (pool p2) = \<lparr>UDPConn = Some c, lastUsed = now\<rparr>))"
proof (cases po)
  case None
  with assms show ?thesis by (simp add: put_def nil_and_guard_def)
next
  case (Some p)
  with assms obtain p1 cl1 where r: "runCleanner po now cl = Inr (p1, cl1)"
    by (auto simp: put_def nil_and_guard_def split: sum.splits)
  from runCleanner_closed [OF r] obtain x where x: "cl1 = cl @ x" ..
  show ?thesis
    using assms Some r x
    by (auto simp: put_def nil_and_guard_def close_conn_def split: if_splits)
qed

subsection \<open>The in-place loops against the list pass\<close>

text \<open>
  Each in-place loop, started at index \<open>i\<close> with \<open>k \<le> i\<close> slots of the result
  written, returns those \<open>k\<close> slots followed by what the list pass makes of the entries
  from \<open>i\<close> on: a write of the loop lands in a slot the loop has already read.
\<close>

lemma capacity_loop_sweep_list:
  "k \<le> i \<Longrightarrow> i \<le> n \<Longrightarrow> length a = n \<Longrightarrow>
   capacity_loop now tt mid n i k a cl =
     (case sweep_list now tt mid i (drop i a) cl of
        Inl f \<Rightarrow> Inl f
      | Inr (res, cl') \<Rightarrow> Inr (take k a @ res, cl'))"
proof (induction now tt mid n i k a cl rule: capacity_loop.induct)
  case (1 now tt mid n i k a cl)
  show ?case
  proof (cases "i < n")
    case False
    with "1.prems" show ?thesis
      by (subst capacity_loop.simps) simp
  next
    case True
    with "1.prems" have d: "drop i a = a ! i # drop (Suc i) a"
      by (simp add: Cons_nth_drop_Suc)
    let ?forced = "if i < mid
               then (case close_conn (UDPConn (a ! i)) cl of
                       Inl f \<Rightarrow> Inl f
                     | Inr cl1 \<Rightarrow> Inr (set_nil i a, cl1))
               else Inr (a, cl)"
    let ?forced_elem = "if i < mid
            then (case close_conn (UDPConn (a ! i)) cl of
                    Inl f \<Rightarrow> Inl f
                  | Inr cl1 \<Rightarrow> Inr ((a ! i)\<lparr>UDPConn := None\<rparr>, cl1))
            else Inr (a ! i, cl)"
    show ?thesis
    proof (cases ?forced)
      case (Inl f)
      then have fe: "?forced_elem = Inl f"
        by (auto split: if_splits sum.splits)
      have "capacity_loop now tt mid n i k a cl = Inl f"
        by (subst capacity_loop.simps) (simp only: True Inl if_True sum.case)
      moreover have "sweep_list now tt mid i (drop i a) cl = Inl f"
        by (simp only: d sweep_list.simps fe sum.case)
      ultimately show ?thesis by simp
    next
      case (Inr r)
      obtain a1 cl1 where r: "r = (a1, cl1)" by (cases r)
      have f: "?forced = Inr (a1, cl1)" using Inr r by simp
      have la1: "length a1 = n" "drop (Suc i) a1 = drop (Suc i) a" "take k a1 = take k a"
        using f "1.prems" True
        by (auto simp: set_nil_def split: if_splits sum.splits)
      have e1: "?forced_elem = Inr (a1 ! i, cl1)"
        using f "1.prems" True
        by (auto simp: set_nil_def split: if_splits sum.splits)
      show ?thesis
      proof (cases "since now (lastUsed (a1 ! i)) < tt")
        case fresh: True
        have ih: "capacity_loop now tt mid n (i + 1) (k + 1) (a1[k := a1 ! i]) cl1 =
            (case sweep_list now tt mid (i + 1) (drop (i + 1) (a1[k := a1 ! i])) cl1 of
               Inl f \<Rightarrow> Inl f
             | Inr (res, cl') \<Rightarrow> Inr (take (k + 1) (a1[k := a1 ! i]) @ res, cl'))"
          using "1.prems" True la1
          by (intro "1.IH"(1) [OF True f refl fresh]) auto
        have t: "take (k + 1) (a1[k := a1 ! i]) = take k a @ [a1 ! i]"
          using "1.prems" True la1
          by (simp add: take_Suc_conv_app_nth)
        have dr: "drop (i + 1) (a1[k := a1 ! i]) = drop (Suc i) a"
          using "1.prems" la1 by simp
        have lhs: "capacity_loop now tt mid n i k a cl =
                   capacity_loop now tt mid n (i + 1) (k + 1) (a1[k := a1 ! i]) cl1"
          by (subst capacity_loop.simps) (simp only: True f fresh if_True sum.case prod.case)
        have rhs: "sweep_list now tt mid i (drop i a) cl =
                   (case sweep_list now tt mid (i + 1) (drop (Suc i) a) cl1 of
                      Inl f \<Rightarrow> Inl f
                    | Inr (res, cl2) \<Rightarrow> Inr (a1 ! i # res, cl2))"
          by (simp only: d sweep_list.simps e1 fresh if_True sum.case prod.case)
        show ?thesis
          unfolding lhs rhs ih t dr
          by (cases "sweep_list now tt mid (i + 1) (drop (Suc i) a) cl1") auto
      next
        case expired: False
        show ?thesis
        proof (cases "close_conn (UDPConn (a1 ! i)) cl1")
          case (Inl g)
          have "capacity_loop now tt mid n i k a cl = Inl g"
            by (subst capacity_loop.simps)
              (simp only: True f expired Inl if_True if_False sum.case prod.case)
          moreover have "sweep_list now tt mid i (drop i a) cl = Inl g"
            by (simp only: d sweep_list.simps e1 expired Inl if_False sum.case prod.case)
          ultimately show ?thesis by simp
        next
          case (Inr cl2)
          have ih: "capacity_loop now tt mid n (i + 1) k (set_nil i a1) cl2 =
            (case sweep_list now tt mid (i + 1) (drop (i + 1) (set_nil i a1)) cl2 of
               Inl f \<Rightarrow> Inl f
             | Inr (res, cl') \<Rightarrow> Inr (take k (set_nil i a1) @ res, cl'))"
            using "1.prems" True la1
            by (intro "1.IH"(2) [OF True f refl expired Inr]) (auto simp: set_nil_def)
          have t: "take k (set_nil i a1) = take k a"
            using "1.prems" la1 by (simp add: set_nil_def)
          have dr: "drop (i + 1) (set_nil i a1) = drop (Suc i) a"
            using la1 by (simp add: set_nil_def)
          have lhs: "capacity_loop now tt mid n i k a cl =
                     capacity_loop now tt mid n (i + 1) k (set_nil i a1) cl2"
            by (subst capacity_loop.simps)
              (simp only: True f expired Inr if_True if_False sum.case prod.case)
          have rhs: "sweep_list now tt mid i (drop i a) cl =
                     sweep_list now tt mid (i + 1) (drop (Suc i) a) cl2"
            by (simp only: d sweep_list.simps e1 expired Inr if_False sum.case prod.case)
          show ?thesis
            unfolding lhs rhs ih t dr by simp
        qed
      qed
    qed
  qed
qed

lemma scheduled_loop_sweep_list:
  "k \<le> i \<Longrightarrow> i \<le> n \<Longrightarrow> length a = n \<Longrightarrow>
   scheduled_loop now tt n i k a cl =
     (case sweep_list now tt 0 i (drop i a) cl of
        Inl f \<Rightarrow> Inl f
      | Inr (res, cl') \<Rightarrow> Inr (take k a @ res, cl'))"
proof (induction now tt n i k a cl rule: scheduled_loop.induct)
  case (1 now tt n i k a cl)
  show ?case
  proof (cases "i < n")
    case False
    with "1.prems" show ?thesis
      by (subst scheduled_loop.simps) simp
  next
    case True
    with "1.prems" have d: "drop i a = a ! i # drop (Suc i) a"
      by (simp add: Cons_nth_drop_Suc)
    show ?thesis
    proof (cases "since now (lastUsed (a ! i)) < tt")
      case fresh: True
      have ih: "scheduled_loop now tt n (i + 1) (k + 1) (a[k := a ! i]) cl =
          (case sweep_list now tt 0 (i + 1) (drop (i + 1) (a[k := a ! i])) cl of
             Inl f \<Rightarrow> Inl f
           | Inr (res, cl') \<Rightarrow> Inr (take (k + 1) (a[k := a ! i]) @ res, cl'))"
        using "1.prems" True
        by (intro "1.IH"(1) [OF True fresh]) auto
      have t: "take (k + 1) (a[k := a ! i]) = take k a @ [a ! i]"
        using "1.prems" True by (simp add: take_Suc_conv_app_nth)
      have dr: "drop (i + 1) (a[k := a ! i]) = drop (Suc i) a"
        using "1.prems" by simp
      have lhs: "scheduled_loop now tt n i k a cl =
                 scheduled_loop now tt n (i + 1) (k + 1) (a[k := a ! i]) cl"
        by (subst scheduled_loop.simps) (simp only: True fresh if_True)
      have rhs: "sweep_list now tt 0 i (drop i a) cl =
                 (case sweep_list now tt 0 (i + 1) (drop (Suc i) a) cl of
                    Inl f \<Rightarrow> Inl f
                  | Inr (res, cl2) \<Rightarrow> Inr (a ! i # res, cl2))"
        by (simp add: d fresh)
      show ?thesis
        unfolding lhs rhs ih t dr
        by (cases "sweep_list now tt 0 (i + 1) (drop (Suc i) a) cl") auto
    next
      case expired: False
      show ?thesis
      proof (cases "close_conn (UDPConn (a ! i)) cl")
        case (Inl g)
        have "scheduled_loop now tt n i k a cl = Inl g"
          by (subst scheduled_loop.simps)
            (simp only: True expired Inl if_True if_False sum.case)
        moreover have "sweep_list now tt 0 i (drop i a) cl = Inl g"
          by (simp add: d expired Inl)
        ultimately show ?thesis by simp
      next
        case (Inr cl2)
        have ih: "scheduled_loop now tt n (i + 1) k (set_nil i a) cl2 =
          (case sweep_list now tt 0 (i + 1) (drop (i + 1) (set_nil i a)) cl2 of
             Inl f \<Rightarrow> Inl f
           | Inr (res, cl') \<Rightarrow> Inr (take k (set_nil i a) @ res, cl'))"
          using "1.prems" True
          by (intro "1.IH"(2) [OF True expired Inr]) (auto simp: set_nil_def)
        have t: "take k (set_nil i a) = take k a"
          using "1.prems" by (simp add: set_nil_def)
        have dr: "drop (i + 1) (set_nil i a) = drop (Suc i) a"
          by (simp add: set_nil_def)
        have lhs: "scheduled_loop now tt n i k a cl =
                   scheduled_loop now tt n (i + 1) k (set_nil i a) cl2"
          by (subst scheduled_loop.simps)
            (simp only: True expired Inr if_True if_False sum.case)
        have rhs: "sweep_list now tt 0 i (drop i a) cl =
                   sweep_list now tt 0 (i + 1) (drop (Suc i) a) cl2"
          by (simp add: d expired Inr)
        show ?thesis
          unfolding lhs rhs ih t dr by simp
      qed
    qed
  qed
qed

lemma scheduled_loop_is_sweep:
  "scheduled_loop now tt (length a) 0 0 a cl = sweep_list now tt 0 0 a cl"
  by (simp add: scheduled_loop_sweep_list split: sum.splits)

lemma capacity_loop_is_sweep:
  "capacity_loop now tt mid (length a) 0 0 a cl = sweep_list now tt mid 0 a cl"
  by (simp add: capacity_loop_sweep_list split: sum.splits)

lemma runCleanner_sweep_list:
  "runCleanner (Some p) now cl =
     (case (if since now (lastClean p) > cleannerInterval p
            then (case sweep_list now (ttl p) 0 0 (pool p) cl of
                    Inl f \<Rightarrow> Inl f
                  | Inr (res, cl1) \<Rightarrow> Inr (p\<lparr>lastClean := now, pool := res\<rparr>, cl1))
            else Inr (p, cl)) of
        Inl f \<Rightarrow> Inl f
      | Inr (p1, cl1) \<Rightarrow>
          (if int (length (pool p1)) \<ge> maxSize p1
           then (case sweep_list now (ttl p1) (length (pool p1) div 2) 0 (pool p1) cl1 of
                   Inl f \<Rightarrow> Inl f
                 | Inr (res, cl2) \<Rightarrow> Inr (p1\<lparr>pool := res\<rparr>, cl2))
           else Inr (p1, cl1)))"
  by (simp add: runCleanner_def nil_and_guard_def scheduled_loop_is_sweep
      capacity_loop_is_sweep split: sum.splits)

lemma sweep_list_survivors:
  "sweep_list now tt mid i es cl = Inr (res, cl') \<Longrightarrow>
   map lastUsed res = filter (\<lambda>t. since now t < tt) (map lastUsed es)"
proof (induction es arbitrary: i cl res)
  case Nil
  then show ?case by simp
next
  case (Cons e es)
  let ?forced = "if i < mid
            then (case close_conn (UDPConn e) cl of
                    Inl f \<Rightarrow> Inl f
                  | Inr cl1 \<Rightarrow> Inr (e\<lparr>UDPConn := None\<rparr>, cl1))
            else Inr (e, cl)"
  from Cons.prems obtain e1 cl1 where f: "?forced = Inr (e1, cl1)"
    by (auto split: sum.splits)
  then have l: "lastUsed e1 = lastUsed e"
    by (auto split: if_splits sum.splits)
  show ?case
  proof (cases "since now (lastUsed e1) < tt")
    case True
    with Cons.prems f obtain res1 where
      r: "sweep_list now tt mid (i + 1) es cl1 = Inr (res1, cl')" and res: "res = e1 # res1"
      by (auto split: sum.splits)
    from Cons.IH [OF r] True l res show ?thesis by simp
  next
    case False
    with Cons.prems f obtain cl2 where
      r: "sweep_list now tt mid (i + 1) es cl2 = Inr (res, cl')"
      by (auto split: sum.splits)
    from Cons.IH [OF r] False l show ?thesis by simp
  qed
qed

lemma runCleanner_idle:
  "\<not> since now (lastClean p) > cleannerInterval p \<Longrightarrow> int (length (pool p)) < maxSize p \<Longrightarrow>
   runCleanner (Some p) now cl = Inr (p, cl)"
  by (simp add: runCleanner_def nil_and_guard_def)

lemma capacity_sweep_drops_only_expired:
  assumes "\<not> since now (lastClean p) > cleannerInterval p"
    and "int (length (pool p)) \<ge> maxSize p"
    and "runCleanner (Some p) now cl = Inr (p1, cl1)"
  shows "map lastUsed (pool p1) = filter (\<lambda>t. since now t < ttl p) (map lastUsed (pool p))"
proof -
  from assms obtain res where
    s: "sweep_list now (ttl p) (length (pool p) div 2) 0 (pool p) cl = Inr (res, cl1)" and
    p1: "p1 = p\<lparr>pool := res\<rparr>"
    by (auto simp: runCleanner_sweep_list split: sum.splits)
  from sweep_list_survivors [OF s] p1 show ?thesis by simp
qed

text \<open>
  On a pool whose entries all hold a socket and which is below its capacity, the cleanup
  cannot fault: only the scheduled sweep can run, and it keeps the entries younger than
  the TTL and closes the sockets of the others.
\<close>

lemma scheduled_sweep_filter:
  "list_all (\<lambda>e. UDPConn e \<noteq> None) es \<Longrightarrow>
   sweep_list now tt 0 i es cl =
     Inr (filter (\<lambda>e. since now (lastUsed e) < tt) es,
          cl @ map (\<lambda>e. the (UDPConn e)) (filter (\<lambda>e. \<not> since now (lastUsed e) < tt) es))"
  by (induction es arbitrary: i cl) (auto simp: close_conn_def)

lemma runCleanner_below_capacity:
  assumes "list_all (\<lambda>e. UDPConn e \<noteq> None) (pool p)"
    and "int (length (pool p)) < maxSize p"
  shows "runCleanner (Some p) now cl =
     (if since now (lastClean p) > cleannerInterval p
      then Inr (p\<lparr>lastClean := now,
                 pool := filter (\<lambda>e. since now (lastUsed e) < ttl p) (pool p)\<rparr>,
                cl @ map (\<lambda>e. the (UDPConn e))
                       (filter (\<lambda>e. \<not> since now (lastUsed e) < ttl p) (pool p)))
      else Inr (p, cl))"
proof -
  have "int (length (filter (\<lambda>e. since now (lastUsed e) < ttl p) (pool p))) < maxSize p"
    using assms(2) length_filter_le [of "\<lambda>e. since now (lastUsed e) < ttl p" "pool p"]
    by linarith
  with assms show ?thesis
    by (simp add: runCleanner_sweep_list scheduled_sweep_filter)
qed

lemma put_returns_below_capacity:
  assumes "list_all (\<lambda>e. UDPConn e \<noteq> None) (pool p)"
    and "int (length (pool p)) < maxSize p"
  shows "\<exists>p' cl'. put (Some p) (Some c) now cl = Inr (Some p', cl')
                  \<and> pool p' \<noteq> [] \<and> last (pool p') = \<lparr>UDPConn = Some c, lastUsed = now\<rparr>"
proof -
  have "int (length (filter (\<lambda>e. since now (lastUsed e) < ttl p) (pool p))) < maxSize p"
    using assms(2) length_filter_le [of "\<lambda>e. since now (lastUsed e) < ttl p" "pool p"]
    by linarith
  with assms(2) show ?thesis
    by (simp add: put_def nil_and_guard_def runCleanner_below_capacity [OF assms])
qed



subsection \<open>The size bound\<close>

lemma put_keeps_bound:
  assumes "put (Some p) c now cl = Inr (po', cl')" "int (length (pool p)) \<le> maxSize p"
  shows "\<exists>p'. po' = Some p' \<and> int (length (pool p')) \<le> maxSize p' \<and> maxSize p' = maxSize p"
  using assms
  by (auto simp: put_def nil_and_guard_def split: if_splits sum.splits prod.splits
      dest!: runCleanner_keeps)

lemma get_keeps_bound:
  assumes "get (Some p) now cl = Inr (r, po', cl')" "int (length (pool p)) \<le> maxSize p"
  shows "\<exists>p'. po' = Some p' \<and> int (length (pool p')) \<le> maxSize p' \<and> maxSize p' = maxSize p"
  using assms
  by (auto simp: get_def nil_and_guard_def Let_def split: if_splits sum.splits prod.splits
      dest!: runCleanner_keeps)

lemma new_pool_bound:
  "0 \<le> sz \<Longrightarrow>
   int (length (pool (newUDPConnPool sz tt gcInterval))) \<le> maxSize (newUDPConnPool sz tt gcInterval)"
  by (simp add: newUDPConnPool_def)

text \<open>
  Claim C2. \<open>len(pool) <= maxSize\<close> is an invariant of the pool: from a pool within its
  maximum size (a new pool of non-negative size is one, by \<open>new_pool_bound\<close>), every
  sequence of \<open>get\<close> and \<open>put\<close> calls that runs to its end leaves a pool that holds at
  most \<open>maxSize\<close> entries, with \<open>maxSize\<close> unchanged. Every prefix of a sequence is a
  sequence, so the bound holds after each single call.
\<close>

theorem pool_never_exceeds_maxSize:
  "int (length (pool p)) \<le> maxSize p \<Longrightarrow> run_ops ops (Some p) cl = Inr (rs, po', cl') \<Longrightarrow>
   \<exists>p'. po' = Some p' \<and> int (length (pool p')) \<le> maxSize p' \<and> maxSize p' = maxSize p"
proof (induction ops arbitrary: p cl rs)
  case Nil
  then show ?case by auto
next
  case (Cons x ops)
  obtain op t where x: "x = (op, t)" by (cases x)
  show ?case
  proof (cases op)
    case Get
    with Cons.prems x obtain c po1 cl1 rs1 where
      g: "get (Some p) t cl = Inr (c, po1, cl1)" and
      r: "run_ops ops po1 cl1 = Inr (rs1, po', cl')"
      by (auto split: sum.splits)
    from get_keeps_bound [OF g Cons.prems(1)] obtain p1 where
      p1: "po1 = Some p1" "int (length (pool p1)) \<le> maxSize p1" "maxSize p1 = maxSize p"
      by blast
    from Cons.IH [OF p1(2) r [unfolded p1(1)]] p1(3) show ?thesis by auto
  next
    case (Put c)
    with Cons.prems x obtain po1 cl1 where
      g: "put (Some p) (Some c) t cl = Inr (po1, cl1)" and
      r: "run_ops ops po1 cl1 = Inr (rs, po', cl')"
      by (auto split: sum.splits)
    from put_keeps_bound [OF g Cons.prems(1)] obtain p1 where
      p1: "po1 = Some p1" "int (length (pool p1)) \<le> maxSize p1" "maxSize p1 = maxSize p"
      by blast
    from Cons.IH [OF p1(2) r [unfolded p1(1)]] p1(3) show ?thesis by auto
  qed
qed

theorem pool_never_exceeds_maxSize_witness:
  "int (length (pool (newUDPConnPool 2 (10 * second) (10 * second))))
     \<le> maxSize (newUDPConnPool 2 (10 * second) (10 * second))
   \<and> run_ops [(Put 1, sample_now), (Get, sample_now + 1), (Put 2, sample_now + 2),
              (Put 3, sample_now + 3)]
        (Some (newUDPConnPool 2 (10 * second) (10 * second))) [] =
      Inr ([Some 1],
           Some \<lparr>maxSize = 2,
                 pool = [\<lparr>UDPConn = Some 2, lastUsed = sample_now + 2\<rparr>,
                         \<lparr>UDPConn = Some 3, lastUsed = sample_now + 3\<rparr>],
                 ttl = 10 * second, lastClean = sample_now,
                 cleannerInterval = 10 * second\<rparr>,
           [])
   \<and> (\<exists>p'. Some \<lparr>maxSize = 2,
                 pool = [\<lparr>UDPConn = Some 2, lastUsed = sample_now + 2\<rparr>,
                         \<lparr>UDPConn = Some 3, lastUsed = sample_now + 3\<rparr>],
                 ttl = 10 * second, lastClean = sample_now,
                 cleannerInterval = 10 * second\<rparr> = Some p'
            \<and> int (length (pool p')) \<le> maxSize p'
            \<and> maxSize p' = maxSize (newUDPConnPool 2 (10 * second) (10 * second)))"
proof -
  have h1: "int (length (pool (newUDPConnPool 2 (10 * second) (10 * second))))
              \<le> maxSize (newUDPConnPool 2 (10 * second) (10 * second))"
    by (simp add: newUDPConnPool_def)
  have h2: "run_ops [(Put 1, sample_now), (Get, sample_now + 1), (Put 2, sample_now + 2),
              (Put 3, sample_now + 3)]
        (Some (newUDPConnPool 2 (10 * second) (10 * second))) [] =
      Inr ([Some 1],
           Some \<lparr>maxSize = 2,
                 pool = [\<lparr>UDPConn = Some 2, lastUsed = sample_now + 2\<rparr>,
                         \<lparr>UDPConn = Some 3, lastUsed = sample_now + 3\<rparr>],
                 ttl = 10 * second, lastClean = sample_now,
                 cleannerInterval = 10 * second\<rparr>,
           [])"
    by code_simp
  from pool_never_exceeds_maxSize [OF h1 h2] h1 h2 show ?thesis
    by blast
qed

subsection \<open>The capacity sweep\<close>

text \<open>
  Claim C3. The capacity sweep closes the sockets of the oldest half of the entries, but
  it does not drop those entries: after the forced close the loop goes on to the age test
  with the same entry, and an entry younger than the TTL is appended to the result with
  its socket set to nil. On a pool of capacity 4 and TTL 10s that holds four fresh
  sockets, the sweep leaves four entries, the first two without a socket. Followed from
  a new pool, the fifth \<open>put\<close> leaves that pool, and the sixth \<open>put\<close> sweeps again,
  calls \<open>Close\<close> through the nil socket of the first entry and faults. In general
  (\<open>capacity_sweep_drops_only_expired\<close>) the entries a capacity sweep leaves in the
  pool are those younger than the TTL, whatever their position.
\<close>

theorem capacity_sweep_keeps_closed_entries:
  "runCleanner
     (Some \<lparr>maxSize = 4,
             pool = [\<lparr>UDPConn = Some 1, lastUsed = 63700000000000000000\<rparr>,
                     \<lparr>UDPConn = Some 2, lastUsed = 63700000000000000000\<rparr>,
                     \<lparr>UDPConn = Some 3, lastUsed = 63700000000000000000\<rparr>,
                     \<lparr>UDPConn = Some 4, lastUsed = 63700000000000000000\<rparr>],
             ttl = 10 * second, lastClean = 63700000000000000000,
             cleannerInterval = 10 * second\<rparr>)
     63700000000000000000 []
   = Inr (\<lparr>maxSize = 4,
            pool = [\<lparr>UDPConn = None, lastUsed = 63700000000000000000\<rparr>,
                    \<lparr>UDPConn = None, lastUsed = 63700000000000000000\<rparr>,
                    \<lparr>UDPConn = Some 3, lastUsed = 63700000000000000000\<rparr>,
                    \<lparr>UDPConn = Some 4, lastUsed = 63700000000000000000\<rparr>],
            ttl = 10 * second, lastClean = 63700000000000000000,
            cleannerInterval = 10 * second\<rparr>, [1, 2])
   \<and> run_ops [(Put 1, 63700000000000000000), (Put 2, 63700000000000000000),
              (Put 3, 63700000000000000000), (Put 4, 63700000000000000000),
              (Put 5, 63700000000000000000)]
        (Some (newUDPConnPool 4 (10 * second) (10 * second))) []
     = Inr ([], Some \<lparr>maxSize = 4,
            pool = [\<lparr>UDPConn = None, lastUsed = 63700000000000000000\<rparr>,
                    \<lparr>UDPConn = None, lastUsed = 63700000000000000000\<rparr>,
                    \<lparr>UDPConn = Some 3, lastUsed = 63700000000000000000\<rparr>,
                    \<lparr>UDPConn = Some 4, lastUsed = 63700000000000000000\<rparr>],
            ttl = 10 * second, lastClean = 63700000000000000000,
            cleannerInterval = 10 * second\<rparr>, [1, 2, 5])
   \<and> run_ops [(Put 1, 63700000000000000000), (Put 2, 63700000000000000000),
              (Put 3, 63700000000000000000), (Put 4, 63700000000000000000),
              (Put 5, 63700000000000000000), (Put 6, 63700000000000000000)]
        (Some (newUDPConnPool 4 (10 * second) (10 * second))) []
     = Inl NilDereference"
  by code_simp

subsection \<open>Taking a socket\<close>

text \<open>
  On a pool whose entries all hold a socket, that is below its capacity and not due for a
  scheduled sweep, \<open>get\<close> pops the newest entry: it returns the entry's socket, or,
  when the entry's age exceeds the TTL, closes that socket and returns nil.
\<close>

lemma get_on_sound_pool:
  assumes "list_all (\<lambda>e. UDPConn e \<noteq> None) (pool p)"
    and "int (length (pool p)) < maxSize p"
    and "\<not> since now (lastClean p) > cleannerInterval p"
    and "pool p \<noteq> []"
  shows "get (Some p) now cl =
     (if since now (lastUsed (last (pool p))) > ttl p
      then Inr (None, Some (p\<lparr>pool := butlast (pool p)\<rparr>),
                cl @ [the (UDPConn (last (pool p)))])
      else Inr (UDPConn (last (pool p)), Some (p\<lparr>pool := butlast (pool p)\<rparr>), cl))"
proof -
  from assms(1,4) have "UDPConn (last (pool p)) \<noteq> None"
    by (auto simp: list_all_iff)
  then obtain c where c: "UDPConn (last (pool p)) = Some c" by auto
  have r: "runCleanner (Some p) now cl = Inr (p, cl)"
    using assms(2,3) by (intro runCleanner_idle) auto
  show ?thesis
    using assms(4) c
    by (simp add: get_def nil_and_guard_def r Let_def close_conn_def last_conv_nth
        butlast_conv_take)
qed

text \<open>
  Last in, first out: on a pool that neither sweep touches, a socket that was put is the
  one the next \<open>get\<close> returns, as long as its age does not exceed the TTL, and the
  pool is back to what it was.
\<close>

lemma get_returns_last_put:
  assumes "\<not> since t (lastClean p) > cleannerInterval p"
    and "\<not> since t' (lastClean p) > cleannerInterval p"
    and "int (length (pool p)) + 1 < maxSize p"
    and "\<not> since t' t > ttl p"
  shows "put (Some p) (Some c) t cl
           = Inr (Some (p\<lparr>pool := pool p @ [\<lparr>UDPConn = Some c, lastUsed = t\<rparr>]\<rparr>), cl)
         \<and> get (Some (p\<lparr>pool := pool p @ [\<lparr>UDPConn = Some c, lastUsed = t\<rparr>]\<rparr>)) t' cl
           = Inr (Some c, Some p, cl)"
proof -
  have 1: "runCleanner (Some p) t cl = Inr (p, cl)"
    using assms(1,3) by (intro runCleanner_idle) auto
  have 2: "runCleanner (Some (p\<lparr>pool := pool p @ [\<lparr>UDPConn = Some c, lastUsed = t\<rparr>]\<rparr>)) t' cl
             = Inr (p\<lparr>pool := pool p @ [\<lparr>UDPConn = Some c, lastUsed = t\<rparr>]\<rparr>, cl)"
    using assms(2,3) by (intro runCleanner_idle) auto
  show ?thesis
    using assms(3,4)
    by (simp add: put_def get_def nil_and_guard_def 1 2 Let_def)
qed

lemma get_returns_below_capacity:
  assumes "list_all (\<lambda>e. UDPConn e \<noteq> None) (pool p)"
    and "int (length (pool p)) < maxSize p"
  shows "\<exists>r p' cl'. get (Some p) now cl = Inr (r, Some p', cl')"
proof -
  obtain p1 cl1 where r: "runCleanner (Some p) now cl = Inr (p1, cl1)"
    and s: "set (pool p1) \<subseteq> set (pool p)"
    using runCleanner_below_capacity [OF assms, of now cl]
    by (cases "since now (lastClean p) > cleannerInterval p") auto
  show ?thesis
  proof (cases "pool p1 = []")
    case True
    with r show ?thesis by (simp add: get_def nil_and_guard_def)
  next
    case False
    then have "last (pool p1) \<in> set (pool p)"
      using s by auto
    with assms(1) obtain c where "UDPConn (last (pool p1)) = Some c"
      by (auto simp: list_all_iff)
    with r False show ?thesis
      by (simp add: get_def nil_and_guard_def Let_def close_conn_def last_conv_nth)
  qed
qed

text \<open>
  The pool that five puts leave in a pool of capacity 4 is not such a pool: its first two
  entries have lost their socket to the capacity sweep. On it \<open>get\<close> faults at every
  instant, since the pool is still at capacity, one of the two sweeps reaches entry 0 and
  calls \<open>Close\<close> through its nil socket.
\<close>

lemma get_faults_on_swept_pool:
  "get (Some \<lparr>maxSize = 4,
              pool = [\<lparr>UDPConn = None, lastUsed = t\<rparr>, \<lparr>UDPConn = None, lastUsed = t\<rparr>,
                      \<lparr>UDPConn = Some 3, lastUsed = t\<rparr>, \<lparr>UDPConn = Some 4, lastUsed = t\<rparr>],
              ttl = tt, lastClean = lc, cleannerInterval = gcInterval\<rparr>) now cl
     = Inl NilDereference"
  by (simp add: get_def nil_and_guard_def runCleanner_sweep_list close_conn_def)

text \<open>
  Claim C5. \<open>get\<close> is to remove and return the entry released most recently, on every
  pool. It does not on the pool reached by five puts into a new pool of capacity 4 and TTL
  10s: that pool is \<open>[nil, nil, 3, 4]\<close>, its newest entry holds socket 4 and is one
  second old, and \<open>get\<close> faults in its cleanup instead of returning socket 4.
\<close>

theorem get_faults_after_capacity_sweep:
  "run_ops [(Put 1, sample_now), (Put 2, sample_now), (Put 3, sample_now),
            (Put 4, sample_now), (Put 5, sample_now)]
     (Some (newUDPConnPool 4 (second * 10) (second * 10))) []
   = Inr ([],
          Some \<lparr>maxSize = 4,
                pool = [\<lparr>UDPConn = None, lastUsed = 63700000000000000000\<rparr>,
                        \<lparr>UDPConn = None, lastUsed = 63700000000000000000\<rparr>,
                        \<lparr>UDPConn = Some 3, lastUsed = 63700000000000000000\<rparr>,
                        \<lparr>UDPConn = Some 4, lastUsed = 63700000000000000000\<rparr>],
                ttl = 10000000000, lastClean = 63700000000000000000,
                cleannerInterval = 10000000000\<rparr>,
          [1, 2, 5])
   \<and> get (Some \<lparr>maxSize = 4,
                pool = [\<lparr>UDPConn = None, lastUsed = 63700000000000000000\<rparr>,
                        \<lparr>UDPConn = None, lastUsed = 63700000000000000000\<rparr>,
                        \<lparr>UDPConn = Some 3, lastUsed = 63700000000000000000\<rparr>,
                        \<lparr>UDPConn = Some 4, lastUsed = 63700000000000000000\<rparr>],
                ttl = 10000000000, lastClean = 63700000000000000000,
                cleannerInterval = 10000000000\<rparr>)
         (sample_now + second) [1, 2, 5]
     = Inl NilDereference"
  by code_simp

subsection \<open>The nil guard and the pool of capacity zero\<close>

text \<open>
  Claim C9. The guard \<open>p == nil && p.maxSize <= 0\<close> never yields true: on a nil pool
  its right operand is evaluated and reads a field through nil, a fault, and on any other
  pool the left operand is false. So \<open>get\<close> and \<open>put\<close> on a nil pool fault, and the
  early return behind the guard is never taken.
\<close>

theorem nil_pool_guard_faults:
  "nil_and_guard None cond = Inl NilDereference
   \<and> nil_and_guard (Some p) cond = Inr False
   \<and> put None c now cl = Inl NilDereference
   \<and> get None now cl = Inl NilDereference"
  by (simp add: nil_and_guard_def put_def get_def)

lemma put_zero_capacity:
  assumes "maxSize p = 0" "pool p = []"
  shows "\<exists>p'. put (Some p) (Some c) now cl = Inr (Some p', cl @ [c])
              \<and> maxSize p' = 0 \<and> pool p' = []"
  using assms
  by (simp add: put_def runCleanner_def nil_and_guard_def close_conn_def
      scheduled_loop.simps [of _ _ 0] capacity_loop.simps [of _ _ _ 0])

lemma get_zero_capacity:
  assumes "maxSize p = 0" "pool p = []"
  shows "\<exists>p'. get (Some p) now cl = Inr (None, Some p', cl)
              \<and> maxSize p' = 0 \<and> pool p' = []"
  using assms
  by (simp add: get_def runCleanner_def nil_and_guard_def close_conn_def
      scheduled_loop.simps [of _ _ 0] capacity_loop.simps [of _ _ _ 0])

lemma run_ops_zero_capacity:
  "maxSize p = 0 \<Longrightarrow> pool p = [] \<Longrightarrow>
   \<exists>p'. run_ops ops (Some p) cl
           = Inr (replicate (count_gets ops) None, Some p', cl @ put_conns ops)
        \<and> maxSize p' = 0 \<and> pool p' = []"
proof (induction ops arbitrary: p cl)
  case Nil
  then show ?case by simp
next
  case (Cons x ops)
  obtain op t where x: "x = (op, t)" by (cases x)
  show ?case
  proof (cases op)
    case Get
    from get_zero_capacity [OF Cons.prems] obtain p1 where
      g: "get (Some p) t cl = Inr (None, Some p1, cl)" and
      z: "maxSize p1 = 0" "pool p1 = []"
      by blast
    from Cons.IH [OF z] obtain p' where
      "run_ops ops (Some p1) cl
         = Inr (replicate (count_gets ops) None, Some p', cl @ put_conns ops)"
      "maxSize p' = 0" "pool p' = []"
      by blast
    with g x Get show ?thesis by simp
  next
    case (Put c)
    from put_zero_capacity [OF Cons.prems] obtain p1 where
      g: "put (Some p) (Some c) t cl = Inr (Some p1, cl @ [c])" and
      z: "maxSize p1 = 0" "pool p1 = []"
      by blast
    from Cons.IH [OF z] obtain p' where
      "run_ops ops (Some p1) (cl @ [c])
         = Inr (replicate (count_gets ops) None, Some p', (cl @ [c]) @ put_conns ops)"
      "maxSize p' = 0" "pool p' = []"
      by blast
    with g x Put show ?thesis by simp
  qed
qed

text \<open>
  Claim C10. A pool built with \<open>maxSize\<close> 0 stays empty under every sequence of calls:
  each \<open>put\<close> closes the socket it is given, so the sockets closed are exactly the ones
  put, in order, and each \<open>get\<close> returns nil. No call faults, although the guard at the
  head of \<open>get\<close> and \<open>put\<close> never fires.
\<close>

theorem zero_capacity_pool_stays_empty:
  "\<exists>p'. run_ops ops (Some (newUDPConnPool 0 tt gcInterval)) cl
           = Inr (replicate (count_gets ops) None, Some p', cl @ put_conns ops)
        \<and> maxSize p' = 0 \<and> pool p' = []"
  by (rule run_ops_zero_capacity) (simp_all add: newUDPConnPool_def)

section \<open>Properties of the exchangers\<close>

subsection \<open>One step of the read loop\<close>

lemma read_loop_stale:
  "is_stale qRaw r \<Longrightarrow>
   read_loop po c False qRaw tput (r ## rs) w = read_loop po c False qRaw tput rs w"
  by (subst read_loop.simps) (auto simp: is_stale_def split: read_result.splits)



lemma read_loop_match:
  "12 \<le> length m \<Longrightarrow> GetMsgID m = GetMsgID qRaw \<Longrightarrow>
   read_loop po c isNewConn qRaw tput (ReadOk m ## rs) w =
     Some (case put po (Some c) tput (closed w) of
             Inl f \<Rightarrow> Inl f
           | Inr (po1, cl1) \<Rightarrow> Inr ((Some m, None), po1, w\<lparr>closed := cl1\<rparr>))"
  by (subst read_loop.simps) simp

lemma read_loop_new_conn:
  "12 \<le> length m \<Longrightarrow>
   read_loop po c True qRaw tput (ReadOk m ## rs) w =
     Some (case put po (Some c) tput (closed w) of
             Inl f \<Rightarrow> Inl f
           | Inr (po1, cl1) \<Rightarrow> Inr ((Some m, None), po1, w\<lparr>closed := cl1\<rparr>))"
  by (subst read_loop.simps) simp

lemma exchangeTCP_id_mismatch:
  "dialTCP env = Inr c \<Longrightarrow> writeTCP env = None \<Longrightarrow> readTCP env = Inr rRaw \<Longrightarrow>
   GetMsgID rRaw \<noteq> GetMsgID qRaw \<Longrightarrow>
   exchangeTCP u qRaw env w =
     ((None, Some ErrId),
      w\<lparr>closed := closed w @ [c], acquired := acquired w + 1, released := released w + 1\<rparr>)"
  by (simp add: exchangeTCP_def)

subsection \<open>The sample inputs, evaluated\<close>

lemma sample_ids:
  "GetMsgID sample_query = 1" "GetMsgID sample_reply = 1" "GetMsgID sample_other_reply = 2"
  by (simp_all add: sample_query_def sample_reply_def sample_other_reply_def word_cat_eq)

lemma sample_lengths:
  "length sample_query = 12" "length sample_reply = 12" "length sample_other_reply = 12"
  by (simp_all add: sample_query_def sample_reply_def sample_other_reply_def)

lemma sample_env_sel:
  "t_get (sample_env rs) = sample_now + second" "dialUDP (sample_env rs) = Inr 8"
  "writeUDP (sample_env rs) = None" "reads (sample_env rs) = rs"
  "t_put (sample_env rs) = sample_now + 2 * second"
  by (simp_all add: sample_env_def)


lemma sample_put_reused:
  "put (Some \<lparr>maxSize = 65535, pool = [], ttl = 10000000000,
              lastClean = 63700000000000000000, cleannerInterval = 10000000000\<rparr>)
       (Some 7) (sample_now + 2 * second) [] =
     Inr (Some \<lparr>maxSize = 65535,
                pool = [\<lparr>UDPConn = Some 7, lastUsed = 63700000002000000000\<rparr>],
                ttl = 10000000000, lastClean = 63700000000000000000,
                cleannerInterval = 10000000000\<rparr>,
          [])"
  by code_simp

lemma sample_get_fresh:
  "get (cp sample_fresh_upstream) (sample_now + second) [] =
     Inr (None,
          Some \<lparr>maxSize = 65535, pool = [], ttl = 10000000000,
                lastClean = 63700000001000000000, cleannerInterval = 10000000000\<rparr>,
          [])"
  by code_simp

lemma sample_put_fresh:
  "put (Some \<lparr>maxSize = 65535, pool = [], ttl = 10000000000,
              lastClean = 63700000001000000000, cleannerInterval = 10000000000\<rparr>)
       (Some 8) (sample_now + 2 * second) [] =
     Inr (Some \<lparr>maxSize = 65535,
                pool = [\<lparr>UDPConn = Some 8, lastUsed = 63700000002000000000\<rparr>],
                ttl = 10000000000, lastClean = 63700000001000000000,
                cleannerInterval = 10000000000\<rparr>,
          [])"
  by code_simp


lemma sample_obtain_fresh:
  "obtain_conn sample_fresh_upstream (sample_env rs) sample_world =
     Inr (Inr (8, True),
          Some \<lparr>maxSize = 65535, pool = [], ttl = 10000000000,
                lastClean = 63700000001000000000, cleannerInterval = 10000000000\<rparr>,
          sample_world)"
  by (simp add: obtain_conn_def sample_env_sel sample_world_def sample_get_fresh)

lemma sample_exchange_fresh:
  assumes "12 \<le> length m"
  shows "exchangeUDP sample_fresh_upstream sample_query (sample_env (ReadOk m ## rs))
           sample_world =
         Some (Inr ((Some m, None),
                Some \<lparr>maxSize = 65535,
                      pool = [\<lparr>UDPConn = Some 8, lastUsed = 63700000002000000000\<rparr>],
                      ttl = 10000000000, lastClean = 63700000001000000000,
                      cleannerInterval = 10000000000\<rparr>,
                \<lparr>closed = [], acquired = 1, released = 0\<rparr>))"
proof -
  have "exchangeUDP sample_fresh_upstream sample_query (sample_env (ReadOk m ## rs))
           sample_world =
        Some (case put (Some \<lparr>maxSize = 65535, pool = [], ttl = 10000000000,
                              lastClean = 63700000001000000000,
                              cleannerInterval = 10000000000\<rparr>)
                       (Some 8) (sample_now + 2 * second) (closed sample_world) of
                Inl f \<Rightarrow> Inl f
              | Inr (po1, cl1) \<Rightarrow>
                  Inr ((Some m, None), po1,
                       sample_world\<lparr>acquired := acquired sample_world + 1, closed := cl1\<rparr>))"
    by (simp add: exchangeUDP_def sample_obtain_fresh sample_env_sel
        read_loop_new_conn [OF assms] split: sum.splits)
  then show ?thesis
    by (simp add: sample_world_def sample_put_fresh)
qed

lemma sample_late_env_sel:
  "t_get (sample_late_env rs) = sample_now + second" "dialUDP (sample_late_env rs) = Inr 8"
  "writeUDP (sample_late_env rs) = None" "reads (sample_late_env rs) = rs"
  "t_put (sample_late_env rs) = sample_now + 12 * second"
  by (simp_all add: sample_late_env_def)

lemma sample_four_puts:
  "run_ops [(Put 1, sample_now), (Put 2, sample_now), (Put 3, sample_now), (Put 4, sample_now)]
     (Some (newUDPConnPool 4 (second * 10) (second * 10))) []
   = Inr ([], cp sample_full_upstream, [])"
  by code_simp

lemma sample_get_full:
  "get (cp sample_full_upstream) (sample_now + second) [] =
     Inr (Some 4,
          Some \<lparr>maxSize = 4,
                pool = [\<lparr>UDPConn = None, lastUsed = 63700000000000000000\<rparr>,
                        \<lparr>UDPConn = None, lastUsed = 63700000000000000000\<rparr>,
                        \<lparr>UDPConn = Some 3, lastUsed = 63700000000000000000\<rparr>],
                ttl = 10000000000, lastClean = 63700000000000000000,
                cleannerInterval = 10000000000\<rparr>,
          [1, 2])"
  by code_simp

lemma sample_put_full:
  "put (Some \<lparr>maxSize = 4,
              pool = [\<lparr>UDPConn = None, lastUsed = 63700000000000000000\<rparr>,
                      \<lparr>UDPConn = None, lastUsed = 63700000000000000000\<rparr>,
                      \<lparr>UDPConn = Some 3, lastUsed = 63700000000000000000\<rparr>],
              ttl = 10000000000, lastClean = 63700000000000000000,
              cleannerInterval = 10000000000\<rparr>)
       (Some 4) (sample_now + 12 * second) cl
   = Inl NilDereference"
  by (simp add: put_def nil_and_guard_def runCleanner_sweep_list close_conn_def since_def
      maxDuration_def minDuration_def sample_now_def second_def)



lemma sample_obtain_full:
  "obtain_conn sample_full_upstream (sample_late_env rs) sample_world =
     Inr (Inr (4, False),
          Some \<lparr>maxSize = 4,
                pool = [\<lparr>UDPConn = None, lastUsed = 63700000000000000000\<rparr>,
                        \<lparr>UDPConn = None, lastUsed = 63700000000000000000\<rparr>,
                        \<lparr>UDPConn = Some 3, lastUsed = 63700000000000000000\<rparr>],
                ttl = 10000000000, lastClean = 63700000000000000000,
                cleannerInterval = 10000000000\<rparr>,
          sample_world\<lparr>closed := [1, 2]\<rparr>)"
  by (simp add: obtain_conn_def sample_late_env_sel sample_world_def sample_get_full)


subsection \<open>A newly dialled socket\<close>

lemma exchangeUDP_new_conn_accepts_reply:
  assumes "obtain_conn u env w = Inr (Inr (c, True), po1, w1)"
    and "writeUDP env = None"
    and "reads env = ReadOk m ## rest"
    and "12 \<le> length m"
  shows "exchangeUDP u qRaw env w =
     Some (case put po1 (Some c) (t_put env) (closed w1) of
             Inl f \<Rightarrow> Inl f
           | Inr (po2, cl2) \<Rightarrow>
               Inr ((Some m, None), po2,
                    w1\<lparr>closed := cl2, acquired := acquired w1 + 1\<rparr>))"
  using assms(1,2,3)
  by (simp add: exchangeUDP_def read_loop_new_conn [OF assms(4)] split: sum.splits prod.splits)

subsection \<open>Replies with another transaction ID\<close>

text \<open>
  Claim C1. On a new TCP connection a reply whose transaction ID is not the query's ends
  the exchange with \<open>ErrId\<close> (\<open>exchangeTCP_id_mismatch\<close>). On a newly dialled UDP
  socket it does not: the test that compares the IDs is joined with \<open>!isNewConn\<close>, so
  the exchange falls through to the success path and returns whatever reply of at least
  12 bytes comes first (\<open>exchangeUDP_new_conn_accepts_reply\<close>). With an empty pool, a
  query of transaction ID 1 and a first reply of transaction ID 2, \<open>Exchange\<close> returns
  that reply with a nil error and puts the socket into the pool.
\<close>

theorem fresh_udp_conn_returns_mismatched_reply:
  "GetMsgID sample_other_reply \<noteq> GetMsgID sample_query
   \<and> ExchangeUDP sample_fresh_upstream sample_query sample_now (sample_now + 2 * second)
       (sample_env (sconst (ReadOk sample_other_reply))) sample_world =
     Some (Inr ((Some sample_other_reply, 2 * second, None),
                Some \<lparr>maxSize = 65535,
                      pool = [\<lparr>UDPConn = Some 8, lastUsed = 63700000002000000000\<rparr>],
                      ttl = 10000000000, lastClean = 63700000001000000000,
                      cleannerInterval = 10000000000\<rparr>,
                \<lparr>closed = [], acquired = 1, released = 0\<rparr>))"
proof -
  have r: "sconst (ReadOk sample_other_reply)
             = ReadOk sample_other_reply ## sconst (ReadOk sample_other_reply)"
    by (subst siterate.ctr) simp
  have l: "12 \<le> length sample_other_reply"
    by (simp add: sample_lengths)
  have e: "exchangeUDP sample_fresh_upstream sample_query
             (sample_env (sconst (ReadOk sample_other_reply))) sample_world =
           Some (Inr ((Some sample_other_reply, None),
                Some \<lparr>maxSize = 65535,
                      pool = [\<lparr>UDPConn = Some 8, lastUsed = 63700000002000000000\<rparr>],
                      ttl = 10000000000, lastClean = 63700000001000000000,
                      cleannerInterval = 10000000000\<rparr>,
                \<lparr>closed = [], acquired = 1, released = 0\<rparr>))"
    by (subst r) (rule sample_exchange_fresh [OF l])
  have s: "since (sample_now + 2 * second) sample_now = 2 * second"
    by (simp add: since_def second_def maxDuration_def minDuration_def)
  show ?thesis
    by (simp add: ExchangeUDP_def e s sample_ids)
qed

text \<open>
  On a socket taken from the pool, a first read of at least 12 bytes with another
  transaction ID is dropped, and with the next read, a reply with the query's transaction
  ID, the exchange hands the socket to \<open>put\<close> and returns that reply with a nil error
  as soon as \<open>put\<close> returns.
\<close>

lemma stale_reply_then_match_calls_put:
  assumes "get (cp u) (t_get env) (closed w) = Inr (Some c, po1, cl1)"
    and "writeUDP env = None"
    and "reads env = ReadOk stale ## ReadOk m ## rest"
    and "12 \<le> length stale" and "GetMsgID stale \<noteq> GetMsgID qRaw"
    and "12 \<le> length m" and "GetMsgID m = GetMsgID qRaw"
  shows "exchangeUDP u qRaw env w =
     Some (case put po1 (Some c) (t_put env) cl1 of
             Inl f \<Rightarrow> Inl f
           | Inr (po2, cl2) \<Rightarrow>
               Inr ((Some m, None), po2, w\<lparr>closed := cl2, acquired := acquired w + 1\<rparr>))"
proof -
  have s: "is_stale qRaw (ReadOk stale)"
    using assms(4,5) by (simp add: is_stale_def)
  show ?thesis
    using assms(1,2,3)
    by (simp add: exchangeUDP_def obtain_conn_def read_loop_stale [OF s]
        read_loop_match [OF assms(6,7)] split: sum.splits prod.splits)
qed

text \<open>
  Claim C4. On a reused socket the exchange is to drop a first reply with another
  transaction ID and return the next, matching one with no error. It does not when the
  pool went through a capacity sweep: four puts fill a pool of capacity 4; the \<open>get\<close> of
  the exchange sweeps it, leaves \<open>[nil, nil, 3]\<close> and returns socket 4; the exchange reads
  the stale reply and then the matching one; 12 seconds after the puts it calls \<open>put\<close>,
  whose scheduled sweep calls \<open>Close\<close> through the nil socket of entry 0. The exchange
  faults and the matching reply is lost.
\<close>

theorem reused_conn_exchange_faults_on_swept_pool:
  "run_ops [(Put 1, sample_now), (Put 2, sample_now), (Put 3, sample_now), (Put 4, sample_now)]
     (Some (newUDPConnPool 4 (second * 10) (second * 10))) []
   = Inr ([], cp sample_full_upstream, [])
   \<and> get (cp sample_full_upstream)
         (t_get (sample_late_env (ReadOk sample_other_reply ## ReadOk sample_reply
                                   ## sconst (ReadOk sample_reply))))
         (closed sample_world)
     = Inr (Some 4,
            Some \<lparr>maxSize = 4,
                  pool = [\<lparr>UDPConn = None, lastUsed = 63700000000000000000\<rparr>,
                          \<lparr>UDPConn = None, lastUsed = 63700000000000000000\<rparr>,
                          \<lparr>UDPConn = Some 3, lastUsed = 63700000000000000000\<rparr>],
                  ttl = 10000000000, lastClean = 63700000000000000000,
                  cleannerInterval = 10000000000\<rparr>,
            [1, 2])
   \<and> 12 \<le> length sample_other_reply \<and> GetMsgID sample_other_reply \<noteq> GetMsgID sample_query
   \<and> 12 \<le> length sample_reply \<and> GetMsgID sample_reply = GetMsgID sample_query
   \<and> exchangeUDP sample_full_upstream sample_query
         (sample_late_env (ReadOk sample_other_reply ## ReadOk sample_reply
                            ## sconst (ReadOk sample_reply)))
         sample_world
     = Some (Inl NilDereference)"
proof -
  have s: "is_stale sample_query (ReadOk sample_other_reply)"
    by (simp add: is_stale_def sample_lengths sample_ids)
  have m: "12 \<le> length sample_reply" "GetMsgID sample_reply = GetMsgID sample_query"
    by (simp_all add: sample_lengths sample_ids)
  have e: "exchangeUDP sample_full_upstream sample_query
         (sample_late_env (ReadOk sample_other_reply ## ReadOk sample_reply
                            ## sconst (ReadOk sample_reply)))
         sample_world
     = Some (Inl NilDereference)"
    by (simp add: exchangeUDP_def sample_obtain_full sample_late_env_sel
        read_loop_stale [OF s] read_loop_match [OF m] sample_put_full)
  have g: "get (cp sample_full_upstream)
         (t_get (sample_late_env (ReadOk sample_other_reply ## ReadOk sample_reply
                                   ## sconst (ReadOk sample_reply))))
         (closed sample_world)
     = Inr (Some 4,
            Some \<lparr>maxSize = 4,
                  pool = [\<lparr>UDPConn = None, lastUsed = 63700000000000000000\<rparr>,
                          \<lparr>UDPConn = None, lastUsed = 63700000000000000000\<rparr>,
                          \<lparr>UDPConn = Some 3, lastUsed = 63700000000000000000\<rparr>],
                  ttl = 10000000000, lastClean = 63700000000000000000,
                  cleannerInterval = 10000000000\<rparr>,
            [1, 2])"
    by (simp add: sample_late_env_sel sample_world_def sample_get_full)
  have o: "12 \<le> length sample_other_reply" "GetMsgID sample_other_reply \<noteq> GetMsgID sample_query"
    by (simp_all add: sample_lengths sample_ids)
  show ?thesis
    by (intro conjI sample_four_puts g o m e)
qed

subsection \<open>A read cut short by the context\<close>





subsection \<open>Buffers and sockets on every return\<close>

lemma read_loop_resources:
  assumes "read_loop po c isNewConn qRaw tput rs w = Some y"
  shows "case y of
           Inl f \<Rightarrow> True
         | Inr ((r, err), po2, w2) \<Rightarrow>
             acquired w2 = acquired w
             \<and> ((r \<noteq> None \<and> err = None \<and> released w2 = released w)
                \<or> (r = None \<and> err \<noteq> None \<and> released w2 = released w + 1))
             \<and> (\<exists>x. closed w2 = closed w @ x \<and>
                   (c \<in> set x \<or>
                    (\<exists>p2. po2 = Some p2 \<and> pool p2 \<noteq> []
                          \<and> last (pool p2) = \<lparr>UDPConn = Some c, lastUsed = tput\<rparr>)))"
proof (rule read_loop.raw_induct [where P = "\<lambda>po c isNewConn qRaw tput rs w y.
         case y of
           Inl f \<Rightarrow> True
         | Inr ((r, err), po2, w2) \<Rightarrow>
             acquired w2 = acquired w
             \<and> ((r \<noteq> None \<and> err = None \<and> released w2 = released w)
                \<or> (r = None \<and> err \<noteq> None \<and> released w2 = released w + 1))
             \<and> (\<exists>x. closed w2 = closed w @ x \<and>
                   (c \<in> set x \<or>
                    (\<exists>p2. po2 = Some p2 \<and> pool p2 \<noteq> []
                          \<and> last (pool p2) = \<lparr>UDPConn = Some c, lastUsed = tput\<rparr>)))",
       OF _ assms])
  fix loop :: "udpConnPool option \<Rightarrow> conn \<Rightarrow> bool \<Rightarrow> msg \<Rightarrow> time \<Rightarrow> read_result stream
                 \<Rightarrow> world
                 \<Rightarrow> (fault + ((msg option \<times> error option) \<times> udpConnPool option \<times> world)) option"
    and po :: "udpConnPool option" and c :: conn and isNewConn :: bool and qRaw :: msg
    and tput :: time and rs :: "read_result stream" and w :: world
    and y :: "fault + ((msg option \<times> error option) \<times> udpConnPool option \<times> world)"
  let ?P = "\<lambda>c tput w y.
         case y of
           Inl f \<Rightarrow> True
         | Inr ((r, err), po2, w2) \<Rightarrow>
             acquired w2 = acquired w
             \<and> ((r \<noteq> None \<and> err = None \<and> released w2 = released w)
                \<or> (r = None \<and> err \<noteq> None \<and> released w2 = released w + 1))
             \<and> (\<exists>x. closed w2 = closed w @ x \<and>
                   (c \<in> set x \<or>
                    (\<exists>p2. po2 = Some p2 \<and> pool p2 \<noteq> []
                          \<and> last (pool p2) = \<lparr>UDPConn = Some c, lastUsed = tput\<rparr>)))"
  assume IH: "\<And>po c isNewConn qRaw tput rs w y.
                loop po c isNewConn qRaw tput rs w = Some y \<Longrightarrow> ?P c tput w y"
  assume body: "(case shd rs of
        ReadOk m \<Rightarrow>
          (if length m < 12
           then Some (Inr ((None, Some ErrShortRead), po,
                           w\<lparr>closed := closed w @ [c], released := released w + 1\<rparr>))
           else if GetMsgID m \<noteq> GetMsgID qRaw \<and> \<not> isNewConn
           then loop po c isNewConn qRaw tput (stl rs) w
           else Some (case put po (Some c) tput (closed w) of
                        Inl f \<Rightarrow> Inl f
                      | Inr (po1, cl1) \<Rightarrow> Inr ((Some m, None), po1, w\<lparr>closed := cl1\<rparr>)))
      | ReadErr err ctxErr \<Rightarrow>
          (if is_net_timeout err \<and> ctxErr
           then Some (case put po (Some c) tput (closed w) of
                        Inl f \<Rightarrow> Inl f
                      | Inr (po1, cl1) \<Rightarrow>
                          Inr ((None, Some err), po1,
                               w\<lparr>closed := cl1, released := released w + 1\<rparr>))
           else Some (Inr ((None, Some err), po,
                           w\<lparr>closed := closed w @ [c], released := released w + 1\<rparr>)))) = Some y"
  show "?P c tput w y"
  proof (cases "shd rs")
    case (ReadErr err ctxErr)
    show ?thesis
    proof (cases "is_net_timeout err \<and> ctxErr")
      case True
      with body ReadErr show ?thesis
        by (auto split: sum.splits dest!: put_closes_or_pools)
    next
      case False
      with body ReadErr show ?thesis by auto
    qed
  next
    case (ReadOk m)
    show ?thesis
    proof (cases "length m < 12")
      case True
      with body ReadOk show ?thesis by auto
    next
      case long: False
      show ?thesis
      proof (cases "GetMsgID m \<noteq> GetMsgID qRaw \<and> \<not> isNewConn")
        case True
        with body ReadOk long have "loop po c isNewConn qRaw tput (stl rs) w = Some y"
          by simp
        then show ?thesis by (rule IH)
      next
        case False
        with body ReadOk long show ?thesis
          by (auto split: sum.splits dest!: put_closes_or_pools)
      qed
    qed
  qed
qed

text \<open>
  Claim C7. Whenever the UDP exchange returns: either no buffer was acquired (the
  exchange failed before the read), or one buffer was acquired and then exactly one of
  two things holds: it is returned as the reply, with a nil error and no release, or the
  reply is nil, the error is set and the buffer was released once. And the socket the
  exchange obtained has been closed since, or it is the newest entry of the pool.
\<close>

theorem exchange_accounts_for_buffer_and_socket:
  assumes "exchangeUDP u qRaw env w = Some (Inr ((r, err), po2, w2))"
  shows "((acquired w2 = acquired w \<and> released w2 = released w \<and> r = None \<and> err \<noteq> None)
          \<or> (acquired w2 = acquired w + 1
              \<and> ((r \<noteq> None \<and> err = None \<and> released w2 = released w)
                  \<or> (r = None \<and> err \<noteq> None \<and> released w2 = released w + 1))))
         \<and> (\<forall>c isNewConn po1 w1.
               obtain_conn u env w = Inr (Inr (c, isNewConn), po1, w1) \<longrightarrow>
               (\<exists>x. closed w2 = closed w1 @ x \<and>
                  (c \<in> set x \<or>
                   (\<exists>p2. po2 = Some p2 \<and> pool p2 \<noteq> []
                         \<and> last (pool p2) = \<lparr>UDPConn = Some c, lastUsed = t_put env\<rparr>))))"
proof (cases "obtain_conn u env w")
  case (Inl f)
  with assms show ?thesis by (simp add: exchangeUDP_def)
next
  case (Inr t)
  obtain oc po1 w1 where t: "t = (oc, po1, w1)" by (cases t)
  have w1: "acquired w1 = acquired w" "released w1 = released w"
    using Inr t by (auto simp: obtain_conn_def split: sum.splits option.splits)
  show ?thesis
  proof (cases oc)
    case (Inl e)
    with assms Inr t have "r = None" "err = Some e" "w2 = w1"
      by (simp_all add: exchangeUDP_def)
    with Inr t Inl w1 show ?thesis by simp
  next
    case inner: (Inr ci)
    obtain c isNewConn where ci: "ci = (c, isNewConn)" by (cases ci)
    show ?thesis
    proof (cases "writeUDP env")
      case (Some e)
      with assms Inr t inner ci have "r = None" "err = Some e" "w2 = w1\<lparr>closed := closed w1 @ [c]\<rparr>"
        by (simp_all add: exchangeUDP_def)
      with Inr t inner ci w1 show ?thesis by simp
    next
      case None
      with assms Inr t inner ci have
        "read_loop po1 c isNewConn qRaw (t_put env) (reads env) (w1\<lparr>acquired := acquired w1 + 1\<rparr>)
           = Some (Inr ((r, err), po2, w2))"
        by (simp add: exchangeUDP_def)
      from read_loop_resources [OF this] Inr t inner ci w1 show ?thesis by auto
    qed
  qed
qed

theorem exchange_accounts_for_buffer_and_socket_witness:
  "exchangeUDP sample_fresh_upstream sample_query
       (sample_env (ReadOk sample_reply ## sconst (ReadErr (NetError False) False)))
       sample_world =
     Some (Inr ((Some sample_reply, None),
                Some \<lparr>maxSize = 65535,
                      pool = [\<lparr>UDPConn = Some 8, lastUsed = 63700000002000000000\<rparr>],
                      ttl = 10000000000, lastClean = 63700000001000000000,
                      cleannerInterval = 10000000000\<rparr>,
                \<lparr>closed = [], acquired = 1, released = 0\<rparr>))
   \<and> obtain_conn sample_fresh_upstream
       (sample_env (ReadOk sample_reply ## sconst (ReadErr (NetError False) False)))
       sample_world =
     Inr (Inr (8, True),
          Some \<lparr>maxSize = 65535, pool = [], ttl = 10000000000,
                lastClean = 63700000001000000000, cleannerInterval = 10000000000\<rparr>,
          sample_world)
   \<and> acquired \<lparr>closed = [], acquired = 1, released = 0\<rparr> = acquired sample_world + 1
   \<and> released \<lparr>closed = [], acquired = 1, released = 0\<rparr> = released sample_world
   \<and> (\<exists>x. closed \<lparr>closed = [], acquired = 1, released = 0\<rparr> = closed sample_world @ x
          \<and> (8 \<in> set x
              \<or> last [\<lparr>UDPConn = Some 8, lastUsed = 63700000002000000000\<rparr>]
                 = \<lparr>UDPConn = Some 8,
                    lastUsed = t_put (sample_env (ReadOk sample_reply
                                 ## sconst (ReadErr (NetError False) False)))\<rparr>))"
proof -
  let ?env = "sample_env (ReadOk sample_reply ## sconst (ReadErr (NetError False) False))"
  have l: "12 \<le> length sample_reply"
    by (simp add: sample_lengths)
  have h: "exchangeUDP sample_fresh_upstream sample_query ?env sample_world =
     Some (Inr ((Some sample_reply, None),
                Some \<lparr>maxSize = 65535,
                      pool = [\<lparr>UDPConn = Some 8, lastUsed = 63700000002000000000\<rparr>],
                      ttl = 10000000000, lastClean = 63700000001000000000,
                      cleannerInterval = 10000000000\<rparr>,
                \<lparr>closed = [], acquired = 1, released = 0\<rparr>))"
    by (rule sample_exchange_fresh [OF l])
  have o: "obtain_conn sample_fresh_upstream ?env sample_world =
     Inr (Inr (8, True),
          Some \<lparr>maxSize = 65535, pool = [], ttl = 10000000000,
                lastClean = 63700000001000000000, cleannerInterval = 10000000000\<rparr>,
          sample_world)"
    by (rule sample_obtain_fresh)
  from exchange_accounts_for_buffer_and_socket [OF h] o
  have "\<exists>x. closed \<lparr>closed = [], acquired = 1, released = 0\<rparr> = closed sample_world @ x
          \<and> (8 \<in> set x
              \<or> (\<exists>p2. Some \<lparr>maxSize = 65535,
                      pool = [\<lparr>UDPConn = Some 8, lastUsed = 63700000002000000000\<rparr>],
                      ttl = 10000000000, lastClean = 63700000001000000000,
                      cleannerInterval = 10000000000\<rparr> = Some p2 \<and> pool p2 \<noteq> []
                    \<and> last (pool p2) = \<lparr>UDPConn = Some 8, lastUsed = t_put ?env\<rparr>))"
    by blast
  then have c: "\<exists>x. closed \<lparr>closed = [], acquired = 1, released = 0\<rparr> = closed sample_world @ x
          \<and> (8 \<in> set x
              \<or> last [\<lparr>UDPConn = Some 8, lastUsed = 63700000002000000000\<rparr>]
                 = \<lparr>UDPConn = Some 8, lastUsed = t_put ?env\<rparr>)"
    by auto
  show ?thesis
    using h o c by (simp add: sample_world_def)
qed

section \<open>Properties of the factory\<close>

text \<open>
  Claim C8. For the transport \<open>udp\<close> and for the empty transport, \<open>newUpstream\<close>
  fails exactly when the address does not resolve, with the resolver's error; otherwise
  it returns a UDP upstream with the resolved address, a maximum payload of 1480 bytes
  and a new, empty pool of capacity 65535 with a TTL and a cleanup interval of 10
  seconds.
\<close>

theorem newUpstream_udp:
  "newUpstream resolveUDPAddr queryTimeout ad ''udp'' url rootCAs =
     (case resolveUDPAddr ad of
        Inl err \<Rightarrow> Inl err
      | Inr udpAd \<Rightarrow>
          Inr (UDP \<lparr>addr = udpAd, maxUDPSize = 1480,
                    cp = Some \<lparr>maxSize = 65535, pool = [], ttl = 10 * second, lastClean = 0,
                               cleannerInterval = 10 * second\<rparr>\<rparr>))
   \<and> newUpstream resolveUDPAddr queryTimeout ad [] url rootCAs =
     (case resolveUDPAddr ad of
        Inl err \<Rightarrow> Inl err
      | Inr udpAd \<Rightarrow>
          Inr (UDP \<lparr>addr = udpAd, maxUDPSize = 1480,
                    cp = Some \<lparr>maxSize = 65535, pool = [], ttl = 10 * second, lastClean = 0,
                               cleannerInterval = 10 * second\<rparr>\<rparr>))"
  by (simp add: newUpstream_def newUDPConnPool_def split: sum.splits)

end
